theory Spec2Isabelle
  imports Main "HOL-Library.AList"
begin

section \<open>Data model (core/types.ts)\<close>

text \<open>
  A plain JavaScript object with string keys is the association list of its own
  properties in property (insertion) order; \<open>Object.entries\<close> and \<open>Object.keys\<close> read
  that list (keys that look like array indices, which JavaScript enumerates first, are
  not treated apart).  A list that stands for an object has each key once; where a
  statement depends on that, it is a hypothesis.  \<open>JSON.parse(JSON.stringify(v))\<close> is the
  identity on these values.
\<close>

datatype CellMode = Hidden | Readonly | Editable

record FieldCell =
  mode :: CellMode
  required :: bool

datatype ActionContext = View | Create | Update

text \<open>\<open>visible\<close> and \<open>required\<close> of a row are optional properties (\<open>None\<close> is undefined).\<close>

record TaskFieldBehavior =
  field_name :: string
  action_context :: ActionContext
  visible :: "bool option"
  row_required :: "bool option"

record BehaviorBundle =
  state :: string
  action :: ActionContext
  rows :: "TaskFieldBehavior list"

type_synonym 'v obj = "(string \<times> 'v) list"

type_synonym BehaviorMatrixValue = "FieldCell obj obj"

text \<open>
  The cell a matrix holds for a field and a state: the own property \<open>state\<close> of the own
  property \<open>fieldKey\<close>, if there is one.
\<close>

definition cell_at :: "BehaviorMatrixValue \<Rightarrow> string \<Rightarrow> string \<Rightarrow> FieldCell option" where
  "cell_at m fk st = (case map_of m fk of None \<Rightarrow> None | Some byState \<Rightarrow> map_of byState st)"

section \<open>Property access on plain objects\<close>

text \<open>
  The objects of the matrix are plain objects (object literals and results of
  \<open>JSON.parse\<close>): their prototype is \<open>Object.prototype\<close>, and \<open>o[k]\<close> reads through it.
  \<open>Object.prototype\<close> is taken as the language defines it, with no property added; its
  property names are listed in \<open>proto_names\<close>.

  A read \<open>o[k]\<close> gives the own property if there is one; otherwise, for a name of
  \<open>Object.prototype\<close>, a built-in (a function, or \<open>Object.prototype\<close> itself for
  \<open>__proto__\<close>), which is truthy and has no property \<open>mode\<close> or \<open>required\<close>; otherwise
  \<open>undefined\<close>.
\<close>

definition proto_names :: "string list" where
  "proto_names =
     [''constructor'', ''__defineGetter__'', ''__defineSetter__'', ''hasOwnProperty'',
      ''__lookupGetter__'', ''__lookupSetter__'', ''isPrototypeOf'', ''propertyIsEnumerable'',
      ''toString'', ''valueOf'', ''__proto__'', ''toLocaleString'']"

datatype 'v lookup = Own 'v | Inherited | Undefined

definition js_get :: "'v obj \<Rightarrow> string \<Rightarrow> 'v lookup" where
  "js_get obj k =
     (case map_of obj k of
        Some v \<Rightarrow> Own v
      | None \<Rightarrow> if k \<in> set proto_names then Inherited else Undefined)"

text \<open>
  A function that reads an inherited built-in where it expects a row or a cell does not
  go on as it does on a matrix: it stores the built-in in its result, writes properties
  onto the built-in, which every object shares, or, for \<open>__proto__\<close>, assigns through
  the setter of \<open>Object.prototype\<close>.  An assignment \<open>o['__proto__'] = v\<close> to an object
  without that own property runs that setter and replaces the prototype of \<open>o\<close> instead
  of adding a property.  Such a call has an outcome \<open>Inl e\<close>, where \<open>e\<close> names the first
  such step; the model says nothing more about the call (what it returns, what it
  leaves on the built-ins).
\<close>

text \<open>
  \<open>Builtin_as_row k\<close>: \<open>o[k] || {}\<close> gave the built-in inherited under the name \<open>k\<close>.
  \<open>Builtin_as_cell k\<close>: \<open>row[k] || default\<close> gave the built-in inherited under \<open>k\<close>.
  \<open>Proto_assigned\<close>: an assignment to \<open>__proto__\<close> reached the setter.
\<close>

datatype escape = Builtin_as_row string | Builtin_as_cell string | Proto_assigned

text \<open>
  \<open>o[k] || {}\<close>, where the own properties of \<open>o\<close> are rows: the row, a new empty row, or
  a built-in.
\<close>

definition row_or_new :: "'v obj obj \<Rightarrow> string \<Rightarrow> escape + 'v obj" where
  "row_or_new obj k =
     (case js_get obj k of
        Own byState \<Rightarrow> Inr byState
      | Inherited \<Rightarrow> Inl (Builtin_as_row k)
      | Undefined \<Rightarrow> Inr [])"

text \<open>
  The assignment \<open>o[k] = v\<close>: an own property is replaced in place; a new property goes to
  the end (a name of \<open>Object.prototype\<close> other than \<open>__proto__\<close> is a writable data
  property there, so the assignment creates an own property); \<open>__proto__\<close> that is not
  an own property reaches the setter.
\<close>

definition js_set :: "string \<Rightarrow> 'v \<Rightarrow> 'v obj \<Rightarrow> escape + 'v obj" where
  "js_set k v obj =
     (if map_of obj k = None \<and> k = ''__proto__'' then Inl Proto_assigned
      else Inr (AList.update k v obj))"

section \<open>Behavior matrix completion and overlay (components/BehaviorMatrix.tsx)\<close>

definition DEFAULT_CELL :: FieldCell where
  "DEFAULT_CELL = \<lparr>mode = Hidden, required = False\<rparr>"

text \<open>
  The inner loop of \<open>ensureAllCells\<close>: \<open>out[fk][st] = out[fk][st] || { ...DEFAULT_CELL }\<close>.
  An own cell is assigned to itself, a missing one gets the default, an inherited
  built-in is truthy and takes the place of the default.
\<close>

fun ensure_states :: "FieldCell obj \<Rightarrow> string list \<Rightarrow> escape + FieldCell obj" where
  "ensure_states byState [] = Inr byState"
| "ensure_states byState (st # sts) =
     (case js_get byState st of
        Own c \<Rightarrow> ensure_states (AList.update st c byState) sts
      | Inherited \<Rightarrow> Inl (Builtin_as_cell st)
      | Undefined \<Rightarrow> ensure_states (AList.update st DEFAULT_CELL byState) sts)"

text \<open>The outer loop: \<open>out[fk] = out[fk] || {}\<close>, then the inner loop on \<open>out[fk]\<close>.\<close>

fun ensure_fields ::
  "BehaviorMatrixValue \<Rightarrow> string list \<Rightarrow> string list \<Rightarrow> escape + BehaviorMatrixValue" where
  "ensure_fields out [] states = Inr out"
| "ensure_fields out (fk # fks) states =
     (case row_or_new out fk of
        Inl e \<Rightarrow> Inl e
      | Inr byState \<Rightarrow>
          (case ensure_states byState states of
             Inl e \<Rightarrow> Inl e
           | Inr byState' \<Rightarrow> ensure_fields (AList.update fk byState' out) fks states))"

definition ensureAllCells ::
  "BehaviorMatrixValue \<Rightarrow> string list \<Rightarrow> string list \<Rightarrow> escape + BehaviorMatrixValue" where
  "ensureAllCells matrix fieldKeys states = ensure_fields matrix fieldKeys states"

text \<open>
  The inner loop of \<open>overlayMatrixSourceWins\<close>: \<open>out[fk][st] = source[fk][st]\<close> for
  \<open>st\<close> in \<open>Object.keys(source[fk])\<close>.  The keys are own keys of \<open>src\<close>, so the read
  always finds a cell; the \<open>None\<close> branch is never taken.
\<close>

fun overlay_states ::
  "FieldCell obj \<Rightarrow> FieldCell obj \<Rightarrow> string list \<Rightarrow> escape + FieldCell obj" where
  "overlay_states byState src [] = Inr byState"
| "overlay_states byState src (st # sts) =
     (case map_of src st of
        None \<Rightarrow> overlay_states byState src sts
      | Some c \<Rightarrow>
          (case js_set st c byState of
             Inl e \<Rightarrow> Inl e
           | Inr byState' \<Rightarrow> overlay_states byState' src sts))"

text \<open>
  The outer loop, over \<open>Object.keys(source)\<close>: \<open>out[fk] = out[fk] || {}\<close>, then the inner
  loop over the own keys of the row \<open>source[fk]\<close>.
\<close>

fun overlay_fields ::
  "BehaviorMatrixValue \<Rightarrow> BehaviorMatrixValue \<Rightarrow> string list \<Rightarrow> escape + BehaviorMatrixValue" where
  "overlay_fields out source [] = Inr out"
| "overlay_fields out source (fk # fks) =
     (let src = (case map_of source fk of Some r \<Rightarrow> r | None \<Rightarrow> [])
      in case row_or_new out fk of
           Inl e \<Rightarrow> Inl e
         | Inr byState \<Rightarrow>
             (case overlay_states byState src (map fst src) of
                Inl e \<Rightarrow> Inl e
              | Inr byState' \<Rightarrow> overlay_fields (AList.update fk byState' out) source fks))"

definition overlayMatrixSourceWins ::
  "BehaviorMatrixValue \<Rightarrow> BehaviorMatrixValue \<Rightarrow> escape + BehaviorMatrixValue" where
  "overlayMatrixSourceWins target source = overlay_fields target source (map fst source)"

section \<open>Matrix to bundles and back (core/behaviors.ts)\<close>

text \<open>The row pushed for a cell that exists.\<close>

definition row_of_cell :: "string \<Rightarrow> FieldCell \<Rightarrow> TaskFieldBehavior" where
  "row_of_cell fieldKey cell =
     (let visible = (mode cell \<noteq> Hidden);
          isEditable = (mode cell = Editable);
          required = (required cell \<and> isEditable);
          action_context = (if isEditable then Update else View)
      in \<lparr>field_name = fieldKey, action_context = action_context,
          visible = Some visible, row_required = Some required\<rparr>)"

text \<open>
  The row pushed when \<open>byState?.[state]\<close> is an inherited built-in: it passes
  \<open>if (!cell) continue\<close>, its \<open>mode\<close> and \<open>required\<close> are undefined, so
  \<open>visible = (undefined !== 'hidden')\<close> is true, \<open>isEditable\<close> and \<open>required\<close> are false.
\<close>

definition row_of_builtin :: "string \<Rightarrow> TaskFieldBehavior" where
  "row_of_builtin fieldKey =
     \<lparr>field_name = fieldKey, action_context = View, visible = Some True, row_required = Some False\<rparr>"

text \<open>
  The loop over \<open>Object.entries(matrix)\<close> for one state, with its two variables
  \<open>rows\<close> and \<open>anyEditable\<close>.
\<close>

fun scan_fields ::
  "string \<Rightarrow> BehaviorMatrixValue \<Rightarrow> TaskFieldBehavior list \<times> bool \<Rightarrow> TaskFieldBehavior list \<times> bool" where
  "scan_fields st [] acc = acc"
| "scan_fields st ((fieldKey, byState) # rest) (rs, anyEditable) =
     (case js_get byState st of
        Undefined \<Rightarrow> scan_fields st rest (rs, anyEditable)
      | Own cell \<Rightarrow>
          scan_fields st rest
            (rs @ [row_of_cell fieldKey cell],
             (if mode cell = Editable then True else anyEditable))
      | Inherited \<Rightarrow> scan_fields st rest (rs @ [row_of_builtin fieldKey], anyEditable))"

definition bundle_for :: "BehaviorMatrixValue \<Rightarrow> string \<Rightarrow> BehaviorBundle" where
  "bundle_for matrix st =
     (case scan_fields st matrix ([], False) of
        (rs, anyEditable) \<Rightarrow>
          \<lparr>state = st, action = (if anyEditable then Update else View), rows = rs\<rparr>)"

fun bundles_loop :: "BehaviorMatrixValue \<Rightarrow> string list \<Rightarrow> BehaviorBundle list \<Rightarrow> BehaviorBundle list" where
  "bundles_loop matrix [] bundles = bundles"
| "bundles_loop matrix (st # sts) bundles = bundles_loop matrix sts (bundles @ [bundle_for matrix st])"

definition bundlesFromMatrix :: "BehaviorMatrixValue \<Rightarrow> string list \<Rightarrow> BehaviorBundle list" where
  "bundlesFromMatrix matrix allStates = bundles_loop matrix allStates []"

text \<open>
  The cell \<open>matrixFromBundles\<close> derives from a row; \<open>toRule\<close> of core/enrich.ts has
  the same body and returns the same shape.
\<close>

definition toRule :: "TaskFieldBehavior \<Rightarrow> FieldCell" where
  "toRule row =
     (let mode = (if visible row = Some False then Hidden
                  else if action_context row = Update \<or> action_context row = Create then Editable
                  else Readonly);
          required = (if mode = Editable then row_required row = Some True else False)
      in \<lparr>mode = mode, required = required\<rparr>)"

text \<open>
  The loop over the rows of one bundle: \<open>m[key] = m[key] || {}\<close>, then
  \<open>m[key][b.state] = { mode, required }\<close>.
\<close>

fun mfb_rows ::
  "string \<Rightarrow> TaskFieldBehavior list \<Rightarrow> BehaviorMatrixValue \<Rightarrow> escape + BehaviorMatrixValue" where
  "mfb_rows st [] m = Inr m"
| "mfb_rows st (row # rest) m =
     (case row_or_new m (field_name row) of
        Inl e \<Rightarrow> Inl e
      | Inr byState \<Rightarrow>
          (case js_set st (toRule row) byState of
             Inl e \<Rightarrow> Inl e
           | Inr byState' \<Rightarrow> mfb_rows st rest (AList.update (field_name row) byState' m)))"

fun mfb_bundles :: "BehaviorBundle list \<Rightarrow> BehaviorMatrixValue \<Rightarrow> escape + BehaviorMatrixValue" where
  "mfb_bundles [] m = Inr m"
| "mfb_bundles (b # bs) m =
     (case mfb_rows (state b) (rows b) m of
        Inl e \<Rightarrow> Inl e
      | Inr m' \<Rightarrow> mfb_bundles bs m')"

definition matrixFromBundles :: "BehaviorBundle list \<Rightarrow> escape + BehaviorMatrixValue" where
  "matrixFromBundles bundles = mfb_bundles bundles []"

section \<open>Form schema (form-js JSON, read by core/schema.ts and core/enrich.ts)\<close>

text \<open>
  A schema is \<open>{type, components}\<close>; a component has the optional properties below and may
  hold child components.  \<open>None\<close> is an absent property; properties that the functions
  neither read nor write are copied by the clone and are left out.  The elements of a
  \<open>components\<close> array are objects.
\<close>

record Validate =
  v_required :: "bool option"

datatype node = Node
  (key: "string option")
  (node_type: "string option")
  (label: "string option")
  (text_prop: "string option")
  (disabled: "bool option")
  (validate: "Validate option")
  (components: "node list option")

record Schema =
  schema_type :: "string option"
  schema_components :: "node list option"

record FieldMeta =
  meta_key :: string
  meta_label :: string
  meta_type :: "string option"

section \<open>Field extraction (core/schema.ts)\<close>

text \<open>
  A label is the trimmed \<open>label\<close> if that is not empty, else the trimmed \<open>text\<close> if that
  is not empty, else the key.  \<open>String.prototype.trim\<close> is a function of the host; it is
  the parameter \<open>trim\<close>.
\<close>

definition label_of :: "(string \<Rightarrow> string) \<Rightarrow> string option \<Rightarrow> string option \<Rightarrow> string \<Rightarrow> string" where
  "label_of trim l x k =
     (case l of
        Some s \<Rightarrow> if trim s \<noteq> [] then trim s
                  else (case x of Some u \<Rightarrow> if trim u \<noteq> [] then trim u else k | None \<Rightarrow> k)
      | None \<Rightarrow> (case x of Some u \<Rightarrow> if trim u \<noteq> [] then trim u else k | None \<Rightarrow> k))"

text \<open>
  \<open>extractFields(components, acc)\<close>: the accumulator is passed through the recursive
  calls on the children and then on the rest of the array.
\<close>

fun extractFields :: "(string \<Rightarrow> string) \<Rightarrow> node list \<Rightarrow> FieldMeta list \<Rightarrow> FieldMeta list" where
  "extractFields trim [] acc = acc"
| "extractFields trim (Node k t l x d v cs # rest) acc =
     (if t = Some ''text'' \<or> t = Some ''button''
      then extractFields trim rest
             (case cs of Some children \<Rightarrow> extractFields trim children acc | None \<Rightarrow> acc)
      else
        (let acc1 = (case k of
                       Some ks \<Rightarrow>
                         if ks \<noteq> []
                         then acc @ [\<lparr>meta_key = ks, meta_label = label_of trim l x ks, meta_type = t\<rparr>]
                         else acc
                     | None \<Rightarrow> acc)
         in extractFields trim rest
              (case cs of Some children \<Rightarrow> extractFields trim children acc1 | None \<Rightarrow> acc1)))"

section \<open>Schema enrichment (core/enrich.ts)\<close>

text \<open>The loop \<open>rules.set(r.field_name, toRule(r))\<close> over the rows of the bundle.\<close>

fun build_rules :: "TaskFieldBehavior list \<Rightarrow> (string \<rightharpoonup> FieldCell) \<Rightarrow> (string \<rightharpoonup> FieldCell)" where
  "build_rules [] rules = rules"
| "build_rules (r # rs) rules = build_rules rs (rules(field_name r \<mapsto> toRule r))"

text \<open>
  The block \<open>if (key && rule) { ... }\<close> on the pair \<open>(disabled, validate)\<close> of the
  cloned node; \<open>rule\<close> is present only for a truthy key.
\<close>

definition apply_flags :: "FieldCell option \<Rightarrow> bool option \<times> Validate option \<Rightarrow> bool option \<times> Validate option" where
  "apply_flags rule dv =
     (case rule of
        None \<Rightarrow> dv
      | Some r \<Rightarrow>
          if mode r = Readonly
          then (Some True, map_option (\<lambda>vo. vo\<lparr>v_required := Some False\<rparr>) (snd dv))
          else if mode r = Editable
          then (Some False,
                Some ((case snd dv of Some vo \<Rightarrow> vo | None \<Rightarrow> \<lparr>v_required = None\<rparr>)
                        \<lparr>v_required := Some (required r)\<rparr>))
          else dv)"

text \<open>\<open>const rule = key ? rules.get(key) : undefined\<close>: the empty key is falsy and has no rule.\<close>

definition rule_for :: "(string \<rightharpoonup> FieldCell) \<Rightarrow> string option \<Rightarrow> FieldCell option" where
  "rule_for rules k = (case k of Some ks \<Rightarrow> if ks \<noteq> [] then rules ks else None | None \<Rightarrow> None)"

text \<open>
  \<open>transform(nodes)\<close>: a node whose rule is hidden is skipped together with its subtree;
  any other node is cloned, its children are transformed when \<open>components\<close> is an array,
  and the flags are applied.
\<close>

fun transform :: "(string \<rightharpoonup> FieldCell) \<Rightarrow> node list \<Rightarrow> node list" where
  "transform rules [] = []"
| "transform rules (Node k t l x d v cs # ns) =
     (if map_option mode (rule_for rules k) = Some Hidden then transform rules ns
      else Node k t l x
             (fst (apply_flags (rule_for rules k) (d, v)))
             (snd (apply_flags (rule_for rules k) (d, v)))
             (case cs of Some children \<Rightarrow> Some (transform rules children) | None \<Rightarrow> None)
           # transform rules ns)"

definition enrichFormSchemaForState :: "Schema \<Rightarrow> BehaviorBundle \<Rightarrow> Schema" where
  "enrichFormSchemaForState schema bundle =
     (let rules = build_rules (rows bundle) Map.empty
      in schema\<lparr>schema_components :=
           Some (transform rules (case schema_components schema of Some cs \<Rightarrow> cs | None \<Rightarrow> []))\<rparr>)"

section \<open>Read-only flag of the viewer (App.tsx)\<close>

text \<open>
  The body of the \<open>readOnly\<close> memo, as a function of its three dependencies:
  \<open>b?.action === 'view' || (!anyEditable && formState !== 'entry')\<close>.  In
  \<open>row?.[formState]?.mode === 'editable'\<close> an inherited built-in has no \<open>mode\<close>, and
  \<open>undefined === 'editable'\<close> is false.
\<close>

definition readOnly :: "BehaviorBundle list \<Rightarrow> BehaviorMatrixValue \<Rightarrow> string \<Rightarrow> bool" where
  "readOnly bundles matrix formState =
     (let b = find (\<lambda>x. state x = formState) bundles;
          anyEditable = list_ex (\<lambda>row. case js_get row formState of
                                         Own cell \<Rightarrow> mode cell = Editable
                                       | Inherited \<Rightarrow> False
                                       | Undefined \<Rightarrow> False)
                          (map snd matrix)
      in map_option action b = Some View \<or> (\<not> anyEditable \<and> formState \<noteq> ''entry''))"

text \<open>The states of the application, in the order given to \<open>bundlesFromMatrix\<close>.\<close>

definition STATES :: "string list" where
  "STATES = [''entry'', ''review.section1'', ''review.section2'', ''approve'']"

section \<open>Notions used in the statements\<close>

text \<open>
  The rows expected for a state: one per field of the matrix that has a cell for the
  state, in field order.
\<close>

definition rows_of_state :: "BehaviorMatrixValue \<Rightarrow> string \<Rightarrow> TaskFieldBehavior list" where
  "rows_of_state matrix st =
     List.map_filter (\<lambda>fk. map_option (row_of_cell fk) (cell_at matrix fk st)) (map fst matrix)"

text \<open>
  All rows of a bundle list in iteration order, each with its field name and the state of
  its bundle; the last row for a field and a state; the last row for a field in one bundle.
\<close>

definition tagged_rows :: "BehaviorBundle list \<Rightarrow> (string \<times> string \<times> TaskFieldBehavior) list" where
  "tagged_rows bundles = concat (map (\<lambda>b. map (\<lambda>row. (field_name row, state b, row)) (rows b)) bundles)"

definition last_row :: "BehaviorBundle list \<Rightarrow> string \<Rightarrow> string \<Rightarrow> TaskFieldBehavior option" where
  "last_row bundles fk st =
     map_option (\<lambda>t. snd (snd t))
       (find (\<lambda>t. fst t = fk \<and> fst (snd t) = st) (rev (tagged_rows bundles)))"

definition last_row_in :: "TaskFieldBehavior list \<Rightarrow> string \<Rightarrow> TaskFieldBehavior option" where
  "last_row_in rs fk = find (\<lambda>row. field_name row = fk) (rev rs)"

text \<open>
  The nodes of a tree in pre-order, at every depth; the tree without the nodes of a given
  key and without their subtrees.
\<close>

fun nodes_of :: "node list \<Rightarrow> node list" where
  "nodes_of [] = []"
| "nodes_of (Node k t l x d v cs # ns) =
     Node k t l x d v cs # (case cs of Some children \<Rightarrow> nodes_of children | None \<Rightarrow> []) @ nodes_of ns"

fun prune :: "string \<Rightarrow> node list \<Rightarrow> node list" where
  "prune fk [] = []"
| "prune fk (Node k t l x d v cs # ns) =
     (if k = Some fk then prune fk ns
      else Node k t l x d v (case cs of Some children \<Rightarrow> Some (prune fk children) | None \<Rightarrow> None)
             # prune fk ns)"

text \<open>
  The nodes of the input, in pre-order, that are not inside the subtree of a node with a
  hidden rule.
\<close>

fun kept_nodes :: "(string \<rightharpoonup> FieldCell) \<Rightarrow> node list \<Rightarrow> node list" where
  "kept_nodes rules [] = []"
| "kept_nodes rules (Node k t l x d v cs # ns) =
     (if map_option mode (rule_for rules k) = Some Hidden then kept_nodes rules ns
      else Node k t l x d v cs
           # (case cs of Some children \<Rightarrow> kept_nodes rules children | None \<Rightarrow> [])
           @ kept_nodes rules ns)"

text \<open>
  The names that are not property names of \<open>Object.prototype\<close>; a matrix none of whose
  field keys and states is such a name.
\<close>

definition plain_names :: "string list \<Rightarrow> bool" where
  "plain_names ks = list_all (\<lambda>k. k \<notin> set proto_names) ks"

definition plain_matrix :: "BehaviorMatrixValue \<Rightarrow> bool" where
  "plain_matrix m = list_all (\<lambda>e. fst e \<notin> set proto_names \<and> plain_names (map fst (snd e))) m"

text \<open>The nodes of a schema, and a schema without the nodes of a given key.\<close>

definition schema_nodes :: "Schema \<Rightarrow> node list" where
  "schema_nodes schema = nodes_of (case schema_components schema of Some cs \<Rightarrow> cs | None \<Rightarrow> [])"

definition prune_schema :: "string \<Rightarrow> Schema \<Rightarrow> Schema" where
  "prune_schema fk schema =
     schema\<lparr>schema_components := map_option (prune fk) (schema_components schema)\<rparr>"

text \<open>
  The schema nodes that have an output node, in pre-order; the node put out for a kept
  node.
\<close>

definition kept_schema_nodes :: "Schema \<Rightarrow> BehaviorBundle \<Rightarrow> node list" where
  "kept_schema_nodes schema bundle =
     kept_nodes (build_rules (rows bundle) Map.empty)
       (case schema_components schema of Some cs \<Rightarrow> cs | None \<Rightarrow> [])"

definition out_node :: "(string \<rightharpoonup> FieldCell) \<Rightarrow> node \<Rightarrow> node" where
  "out_node rules n =
     Node (key n) (node_type n) (label n) (text_prop n)
       (fst (apply_flags (rule_for rules (key n)) (disabled n, validate n)))
       (snd (apply_flags (rule_for rules (key n)) (disabled n, validate n)))
       (map_option (transform rules) (components n))"

text \<open>The field a single node contributes, if any.\<close>

definition field_of_node :: "(string \<Rightarrow> string) \<Rightarrow> node \<Rightarrow> FieldMeta option" where
  "field_of_node trim n =
     (if node_type n = Some ''text'' \<or> node_type n = Some ''button'' then None
      else (case key n of
              None \<Rightarrow> None
            | Some ks \<Rightarrow>
                if ks = [] then None
                else Some \<lparr>meta_key = ks, meta_label = label_of trim (label n) (text_prop n) ks,
                           meta_type = node_type n\<rparr>))"


section \<open>Reads and writes on plain names\<close>

lemma in_proto_names: "''__proto__'' \<in> set proto_names" "''constructor'' \<in> set proto_names"
  by (simp_all add: proto_names_def)

lemma js_get_Own: "js_get obj k = Own v \<longleftrightarrow> map_of obj k = Some v"
  by (simp add: js_get_def split: option.splits)

lemma js_get_Inherited: "js_get obj k = Inherited \<longleftrightarrow> map_of obj k = None \<and> k \<in> set proto_names"
  by (simp add: js_get_def split: option.splits)

lemma js_get_Undefined: "js_get obj k = Undefined \<longleftrightarrow> map_of obj k = None \<and> k \<notin> set proto_names"
  by (simp add: js_get_def split: option.splits)

lemma row_or_new_Inr:
  "row_or_new obj k = Inr r \<longleftrightarrow>
     (map_of obj k = Some r \<or> (map_of obj k = None \<and> k \<notin> set proto_names \<and> r = []))"
  by (auto simp: row_or_new_def js_get_def split: option.splits)

lemma row_or_new_value:
  "row_or_new obj k = Inr r \<Longrightarrow> r = (case map_of obj k of Some r' \<Rightarrow> r' | None \<Rightarrow> [])"
  by (auto simp: row_or_new_Inr)

lemma row_or_new_plain:
  "k \<notin> set proto_names \<Longrightarrow> row_or_new obj k = Inr (case map_of obj k of Some r \<Rightarrow> r | None \<Rightarrow> [])"
  by (simp add: row_or_new_def js_get_def split: option.splits)

lemma js_set_Inr: "js_set k v obj = Inr r \<Longrightarrow> r = AList.update k v obj"
  by (simp add: js_set_def split: if_splits)

lemma js_set_plain: "k \<noteq> ''__proto__'' \<Longrightarrow> js_set k v obj = Inr (AList.update k v obj)"
  by (simp add: js_set_def)

lemma plain_names_Cons: "plain_names (k # ks) \<longleftrightarrow> k \<notin> set proto_names \<and> plain_names ks"
  by (simp add: plain_names_def)

lemma plain_names_mem: "plain_names ks \<Longrightarrow> k \<in> set ks \<Longrightarrow> k \<notin> set proto_names"
  by (simp add: plain_names_def list_all_iff)

lemma plain_names_no_proto: "plain_names ks \<Longrightarrow> ''__proto__'' \<notin> set ks"
  using in_proto_names(1) by (auto simp: plain_names_def list_all_iff)

lemma cell_at_Nil: "cell_at [] f s = None"
  by (simp add: cell_at_def)

lemma cell_at_absent_field: "f \<notin> set (map fst m) \<Longrightarrow> cell_at m f s = None"
  by (simp add: cell_at_def map_of_eq_None_iff [THEN iffD2])

section \<open>Completion of the matrix\<close>

lemma ensure_states_result:
  "ensure_states byState sts = Inr r \<Longrightarrow>
   map_of r s =
     (case map_of byState s of Some c \<Rightarrow> Some c
      | None \<Rightarrow> if s \<in> set sts then Some DEFAULT_CELL else None)"
proof (induction sts arbitrary: byState)
  case Nil
  then show ?case by (simp split: option.splits)
next
  case (Cons st sts)
  show ?case
  proof (cases "js_get byState st")
    case (Own c)
    with Cons.prems have "ensure_states (AList.update st c byState) sts = Inr r" by simp
    from Cons.IH [OF this] Own show ?thesis
      by (auto simp: update_conv' js_get_Own split: option.splits if_splits)
  next
    case Inherited
    with Cons.prems show ?thesis by simp
  next
    case Undefined
    with Cons.prems have "ensure_states (AList.update st DEFAULT_CELL byState) sts = Inr r" by simp
    from Cons.IH [OF this] Undefined show ?thesis
      by (auto simp: update_conv' js_get_Undefined split: option.splits if_splits)
  qed
qed

lemma ensure_states_returns: "plain_names sts \<Longrightarrow> \<exists>r. ensure_states byState sts = Inr r"
proof (induction sts arbitrary: byState)
  case Nil
  then show ?case by simp
next
  case (Cons st sts)
  then have "js_get byState st \<noteq> Inherited" "plain_names sts"
    by (simp_all add: js_get_Inherited plain_names_Cons)
  with Cons.IH show ?case
    by (cases "js_get byState st") simp_all
qed


lemma ensure_fields_other:
  "ensure_fields out fks sts = Inr out' \<Longrightarrow> f \<notin> set fks \<Longrightarrow> map_of out' f = map_of out f"
proof (induction fks arbitrary: out)
  case Nil
  then show ?case by simp
next
  case (Cons fk fks)
  from Cons.prems(1) obtain r r' where
    "ensure_fields (AList.update fk r' out) fks sts = Inr out'"
    by (auto split: sum.splits)
  from Cons.IH [OF this] Cons.prems(2) show ?case
    by (simp add: update_conv')
qed

lemma ensure_fields_in:
  "ensure_fields out fks sts = Inr out' \<Longrightarrow> f \<in> set fks \<Longrightarrow>
   \<exists>r. map_of out' f = Some r \<and>
       (\<forall>s. map_of r s =
          (case cell_at out f s of Some c \<Rightarrow> Some c
           | None \<Rightarrow> if s \<in> set sts then Some DEFAULT_CELL else None))"
proof (induction fks arbitrary: out)
  case Nil
  then show ?case by simp
next
  case (Cons fk fks)
  from Cons.prems(1) obtain r r' where
    r: "row_or_new out fk = Inr r" and r': "ensure_states r sts = Inr r'"
    and rest: "ensure_fields (AList.update fk r' out) fks sts = Inr out'"
    by (auto split: sum.splits)
  have r0: "map_of r s = cell_at out fk s" for s
    using row_or_new_value [OF r] by (simp add: cell_at_def split: option.splits)
  have r1: "map_of r' s =
      (case cell_at out fk s of Some c \<Rightarrow> Some c
       | None \<Rightarrow> if s \<in> set sts then Some DEFAULT_CELL else None)" for s
    using ensure_states_result [OF r'] by (simp add: r0)
  show ?case
  proof (cases "f \<in> set fks")
    case True
    from Cons.IH [OF rest True] obtain q where
      q: "map_of out' f = Some q"
         "\<And>s. map_of q s =
            (case cell_at (AList.update fk r' out) f s of Some c \<Rightarrow> Some c
             | None \<Rightarrow> if s \<in> set sts then Some DEFAULT_CELL else None)"
      by blast
    have u: "cell_at (AList.update fk r' out) g s = (if g = fk then map_of r' s else cell_at out g s)" for g s
      by (simp add: cell_at_def update_conv')
    have "map_of q s =
        (case cell_at out f s of Some c \<Rightarrow> Some c
         | None \<Rightarrow> if s \<in> set sts then Some DEFAULT_CELL else None)" for s
      by (cases "f = fk") (simp_all add: q(2) u r1 split: option.splits)
    with q(1) show ?thesis by blast
  next
    case False
    with Cons.prems(2) have "f = fk" by simp
    with False ensure_fields_other [OF rest False] r1 show ?thesis
      by (simp add: update_conv')
  qed
qed

lemma cell_at_ensure_fields:
  assumes "ensure_fields out fks sts = Inr out'"
  shows "cell_at out' f s =
     (case cell_at out f s of Some c \<Rightarrow> Some c
      | None \<Rightarrow> if f \<in> set fks \<and> s \<in> set sts then Some DEFAULT_CELL else None)"
proof (cases "f \<in> set fks")
  case True
  from ensure_fields_in [OF assms True] obtain r where
    r: "map_of out' f = Some r"
       "\<And>s. map_of r s =
          (case cell_at out f s of Some c \<Rightarrow> Some c
           | None \<Rightarrow> if s \<in> set sts then Some DEFAULT_CELL else None)"
    by blast
  from r(1) have "cell_at out' f s = map_of r s" by (simp add: cell_at_def)
  with r(2) True show ?thesis by simp
next
  case False
  from ensure_fields_other [OF assms False] have "cell_at out' f s = cell_at out f s"
    by (simp add: cell_at_def)
  with False show ?thesis by (simp split: option.splits)
qed

lemma ensure_fields_returns:
  "plain_names fks \<Longrightarrow> plain_names sts \<Longrightarrow> \<exists>out'. ensure_fields out fks sts = Inr out'"
proof (induction fks arbitrary: out)
  case Nil
  then show ?case by simp
next
  case (Cons fk fks)
  then have fk: "fk \<notin> set proto_names" and fks: "plain_names fks"
    by (simp_all add: plain_names_Cons)
  obtain r' where "ensure_states (case map_of out fk of Some r \<Rightarrow> r | None \<Rightarrow> []) sts = Inr r'"
    using ensure_states_returns [OF Cons.prems(2)] by blast
  with Cons.IH [OF fks Cons.prems(2)] fk show ?case
    by (simp add: row_or_new_plain)
qed


text \<open>
  For field keys and states that are not property names of \<open>Object.prototype\<close>,
  completion returns a matrix that holds, at every pair, the cell of the input if there
  is one, else the default cell if the field is among the field keys and the state among
  the states, else nothing.
\<close>

lemma ensureAllCells_plain_names:
  assumes "plain_names fieldKeys" and "plain_names states"
  shows "\<exists>out. ensureAllCells matrix fieldKeys states = Inr out \<and>
     (\<forall>f s. cell_at out f s =
        (case cell_at matrix f s of Some c \<Rightarrow> Some c
         | None \<Rightarrow> if f \<in> set fieldKeys \<and> s \<in> set states then Some DEFAULT_CELL else None))"
  using ensure_fields_returns [OF assms] cell_at_ensure_fields
  unfolding ensureAllCells_def by blast

text \<open>
  C5.  The claim is that for every matrix, field-key list and state list the completed
  matrix holds, at every pair of a given field and a given state without a cell, the
  default cell \<open>{hidden, false}\<close>.  At \<open>ensureAllCells({}, ['f'], ['constructor'])\<close> the
  pair has no cell, and the code does not put the default there:
  \<open>out.f.constructor || { ...DEFAULT_CELL }\<close> reads the inherited function \<open>Object\<close>,
  which is truthy, and stores it as \<open>out.f.constructor\<close>.  At
  \<open>ensureAllCells({}, ['constructor'], ['entry'])\<close>, \<open>out[fk] || {}\<close> reads the same
  function, which is stored as the row and gets the default cell written onto it.
\<close>

theorem ensureAllCells_inherited_state:
  "cell_at [] ''f'' ''constructor'' = None
   \<and> ensureAllCells [] [''f''] [''constructor''] = Inl (Builtin_as_cell ''constructor'')
   \<and> cell_at [] ''constructor'' ''entry'' = None
   \<and> ensureAllCells [] [''constructor''] [''entry''] = Inl (Builtin_as_row ''constructor'')"
  by (simp add: cell_at_def ensureAllCells_def row_or_new_def js_get_def proto_names_def)


section \<open>Overlay\<close>

lemma overlay_states_result:
  "overlay_states byState src sts = Inr r \<Longrightarrow>
   map_of r s = (if s \<in> set sts \<and> map_of src s \<noteq> None then map_of src s else map_of byState s)"
proof (induction sts arbitrary: byState)
  case Nil
  then show ?case by simp
next
  case (Cons st sts)
  show ?case
  proof (cases "map_of src st")
    case None
    with Cons.prems have "overlay_states byState src sts = Inr r" by simp
    from Cons.IH [OF this] None show ?thesis by auto
  next
    case (Some c)
    with Cons.prems obtain b where b: "js_set st c byState = Inr b"
      and rest: "overlay_states b src sts = Inr r"
      by (auto split: sum.splits)
    from js_set_Inr [OF b] have "map_of b = (map_of byState)(st \<mapsto> c)"
      by (simp add: update_conv')
    with Cons.IH [OF rest] Some show ?thesis by auto
  qed
qed

lemma overlay_states_returns:
  "''__proto__'' \<notin> set sts \<Longrightarrow> \<exists>r. overlay_states byState src sts = Inr r"
  by (induction sts arbitrary: byState) (auto simp: js_set_plain split: option.splits)

lemma overlay_row_result:
  assumes "overlay_states byState src (map fst src) = Inr r"
  shows "map_of r s = (case map_of src s of Some c \<Rightarrow> Some c | None \<Rightarrow> map_of byState s)"
  using overlay_states_result [OF assms, of s]
  by (auto split: option.splits dest: map_of_SomeD intro: rev_image_eqI)

lemma cell_at_overlay_fields:
  "overlay_fields out source fks = Inr out' \<Longrightarrow>
   cell_at out' f s =
     (if f \<in> set fks
      then (case cell_at source f s of Some c \<Rightarrow> Some c | None \<Rightarrow> cell_at out f s)
      else cell_at out f s)"
proof (induction fks arbitrary: out)
  case Nil
  then show ?case by simp
next
  case (Cons fk fks)
  let ?src = "case map_of source fk of Some r \<Rightarrow> r | None \<Rightarrow> []"
  from Cons.prems obtain r r' where
    r: "row_or_new out fk = Inr r" and r': "overlay_states r ?src (map fst ?src) = Inr r'"
    and rest: "overlay_fields (AList.update fk r' out) source fks = Inr out'"
    by (auto simp: Let_def split: sum.splits)
  have r0: "map_of r s = cell_at out fk s" for s
    using row_or_new_value [OF r] by (simp add: cell_at_def split: option.splits)
  have src: "map_of ?src s = cell_at source fk s" for s
    by (simp add: cell_at_def split: option.splits)
  have r1: "map_of r' s = (case cell_at source fk s of Some c \<Rightarrow> Some c | None \<Rightarrow> cell_at out fk s)" for s
    using overlay_row_result [OF r', of s] by (simp add: r0 src split: option.splits)
  have u: "cell_at (AList.update fk r' out) g s = (if g = fk then map_of r' s else cell_at out g s)" for g s
    by (simp add: cell_at_def update_conv')
  have "cell_at out' f s =
      (if f \<in> set fks
       then (case cell_at source f s of Some c \<Rightarrow> Some c | None \<Rightarrow> cell_at (AList.update fk r' out) f s)
       else cell_at (AList.update fk r' out) f s)"
    by (rule Cons.IH [OF rest])
  then show ?case
    by (cases "f = fk") (simp_all add: u r1 split: option.splits)
qed

lemma plain_matrix_entry:
  "plain_matrix m \<Longrightarrow> (fk, r) \<in> set m \<Longrightarrow> fk \<notin> set proto_names \<and> plain_names (map fst r)"
  by (auto simp: plain_matrix_def list_all_iff)

lemma overlay_fields_returns:
  assumes "plain_matrix source"
  shows "set fks \<subseteq> set (map fst source) \<Longrightarrow> \<exists>out'. overlay_fields out source fks = Inr out'"
proof (induction fks arbitrary: out)
  case Nil
  then show ?case by simp
next
  case (Cons fk fks)
  then obtain r where r: "map_of source fk = Some r"
    by (cases "map_of source fk") (auto simp: map_of_eq_None_iff)
  then have "(fk, r) \<in> set source" by (rule map_of_SomeD)
  from plain_matrix_entry [OF assms this]
  have fk: "fk \<notin> set proto_names" and "plain_names (map fst r)"
    by simp_all
  from this(2) have "''__proto__'' \<notin> set (map fst r)"
    by (rule plain_names_no_proto)
  with fk have fk: "fk \<notin> set proto_names" and "''__proto__'' \<notin> set (map fst r)"
    by simp_all
  then obtain r' where
    "overlay_states (case map_of out fk of Some b \<Rightarrow> b | None \<Rightarrow> []) r (map fst r) = Inr r'"
    using overlay_states_returns by blast
  moreover from Cons have "\<exists>out'. overlay_fields (AList.update fk r' out) source fks = Inr out'"
    by simp
  ultimately show ?case
    using fk r by (simp add: row_or_new_plain)
qed

text \<open>
  When no field key and no state of the source is a property name of
  \<open>Object.prototype\<close>, the overlay returns a matrix that holds the source's cell at every
  pair of the source and the target's cell, if any, at every other pair.
\<close>

lemma overlay_plain_names:
  assumes "plain_matrix source"
  shows "\<exists>out. overlayMatrixSourceWins target source = Inr out \<and>
     (\<forall>f s. cell_at out f s =
        (case cell_at source f s of Some c \<Rightarrow> Some c | None \<Rightarrow> cell_at target f s))"
proof -
  from overlay_fields_returns [OF assms, of "map fst source" target] obtain out where
    out: "overlay_fields target source (map fst source) = Inr out"
    by auto
  have "cell_at out f s = (case cell_at source f s of Some c \<Rightarrow> Some c | None \<Rightarrow> cell_at target f s)"
    for f s
    unfolding cell_at_overlay_fields [OF out]
    by (cases "f \<in> set (map fst source)") (auto simp: cell_at_absent_field)
  with out show ?thesis
    by (simp add: overlayMatrixSourceWins_def)
qed


section \<open>Matrix to bundles\<close>

lemma scan_fields_acc:
  "scan_fields st m (rs, ae) =
     (rs @ List.map_filter
             (\<lambda>(fk, byState).
                case js_get byState st of
                  Own c \<Rightarrow> Some (row_of_cell fk c)
                | Inherited \<Rightarrow> Some (row_of_builtin fk)
                | Undefined \<Rightarrow> None) m,
      ae \<or> (\<exists>(fk, byState) \<in> set m. \<exists>c. map_of byState st = Some c \<and> mode c = Editable))"
proof (induction m arbitrary: rs ae)
  case Nil
  then show ?case by simp
next
  case (Cons e m)
  obtain fk byState where e: "e = (fk, byState)" by (cases e)
  show ?case
  proof (cases "js_get byState st")
    case (Own c)
    then have "map_of byState st = Some c" by (simp add: js_get_Own)
    with Own show ?thesis by (auto simp: e Cons.IH)
  next
    case Inherited
    then have "map_of byState st = None" by (simp add: js_get_Inherited)
    with Inherited show ?thesis by (auto simp: e Cons.IH)
  next
    case Undefined
    then have "map_of byState st = None" by (simp add: js_get_Undefined)
    with Undefined show ?thesis by (auto simp: e Cons.IH)
  qed
qed

lemma row_choice_plain:
  "st \<notin> set proto_names \<Longrightarrow>
   (case js_get byState st of
      Own c \<Rightarrow> Some (row_of_cell fk c)
    | Inherited \<Rightarrow> Some (row_of_builtin fk)
    | Undefined \<Rightarrow> None) = map_option (row_of_cell fk) (map_of byState st)"
  by (simp add: js_get_def split: option.splits)

lemma map_filter_entries_gen:
  "\<forall>(fk, byState) \<in> set m. g fk = Some byState \<Longrightarrow> st \<notin> set proto_names \<Longrightarrow>
   List.map_filter
     (\<lambda>(fk, byState).
        case js_get byState st of
          Own c \<Rightarrow> Some (row_of_cell fk c)
        | Inherited \<Rightarrow> Some (row_of_builtin fk)
        | Undefined \<Rightarrow> None) m
     = List.map_filter
         (\<lambda>fk. map_option (row_of_cell fk) (case g fk of None \<Rightarrow> None | Some byState \<Rightarrow> map_of byState st))
         (map fst m)"
  by (induction m) (auto simp: row_choice_plain split: option.splits)

lemma map_filter_entries:
  assumes "distinct (map fst m)" and "st \<notin> set proto_names"
  shows "List.map_filter
     (\<lambda>(fk, byState).
        case js_get byState st of
          Own c \<Rightarrow> Some (row_of_cell fk c)
        | Inherited \<Rightarrow> Some (row_of_builtin fk)
        | Undefined \<Rightarrow> None) m
     = rows_of_state m st"
proof -
  have "\<forall>(fk, byState) \<in> set m. map_of m fk = Some byState"
    using assms(1) by auto
  from map_filter_entries_gen [OF this assms(2)] show ?thesis
    by (simp add: rows_of_state_def cell_at_def [abs_def])
qed

lemma any_editable_entries:
  assumes "distinct (map fst m)"
  shows "(\<exists>(fk, byState) \<in> set m. \<exists>c. map_of byState st = Some c \<and> mode c = Editable)
     \<longleftrightarrow> (\<exists>fk c. cell_at m fk st = Some c \<and> mode c = Editable)"
proof
  assume "\<exists>(fk, byState) \<in> set m. \<exists>c. map_of byState st = Some c \<and> mode c = Editable"
  then obtain fk byState c where "(fk, byState) \<in> set m" "map_of byState st = Some c" "mode c = Editable"
    by auto
  with assms have "cell_at m fk st = Some c" by (simp add: cell_at_def)
  with \<open>mode c = Editable\<close> show "\<exists>fk c. cell_at m fk st = Some c \<and> mode c = Editable" by blast
next
  assume "\<exists>fk c. cell_at m fk st = Some c \<and> mode c = Editable"
  then obtain fk c where c: "cell_at m fk st = Some c" "mode c = Editable" by blast
  then obtain byState where "map_of m fk = Some byState" "map_of byState st = Some c"
    by (auto simp: cell_at_def split: option.splits)
  with c show "\<exists>(fk, byState) \<in> set m. \<exists>c. map_of byState st = Some c \<and> mode c = Editable"
    by (auto dest: map_of_SomeD)
qed

lemma state_bundle_for: "state (bundle_for m st) = st"
  by (simp add: bundle_for_def split: prod.splits)

lemma bundle_for_eq:
  assumes "distinct (map fst m)" and "st \<notin> set proto_names"
  shows "bundle_for m st =
     \<lparr>state = st,
      action = (if \<exists>fk c. cell_at m fk st = Some c \<and> mode c = Editable then Update else View),
      rows = rows_of_state m st\<rparr>"
  using map_filter_entries [OF assms] any_editable_entries [OF assms(1), of st]
  by (simp add: bundle_for_def scan_fields_acc)

lemma bundles_loop_acc: "bundles_loop m sts acc = acc @ map (bundle_for m) sts"
  by (induction sts arbitrary: acc) auto

lemma bundlesFromMatrix_map: "bundlesFromMatrix m sts = map (bundle_for m) sts"
  by (simp add: bundlesFromMatrix_def bundles_loop_acc)

text \<open>
  For states that are not property names of \<open>Object.prototype\<close> there is one bundle per
  state, in order; the rows of the bundle of a state are those of the fields that have a
  cell for the state, so a field without a cell has no row there; the action is
  \<open>update\<close> if some field has an editable cell for the state and \<open>view\<close> otherwise.
\<close>

lemma bundlesFromMatrix_plain_states:
  assumes "distinct (map fst matrix)" and "plain_names allStates"
  shows "map state (bundlesFromMatrix matrix allStates) = allStates
    \<and> (i < length allStates \<longrightarrow>
         rows (bundlesFromMatrix matrix allStates ! i) = rows_of_state matrix (allStates ! i)
       \<and> (cell_at matrix fk (allStates ! i) = None \<longrightarrow>
            fk \<notin> field_name ` set (rows (bundlesFromMatrix matrix allStates ! i)))
       \<and> action (bundlesFromMatrix matrix allStates ! i) =
           (if \<exists>f c. cell_at matrix f (allStates ! i) = Some c \<and> mode c = Editable
            then Update else View))"
proof -
  have "map state (bundlesFromMatrix matrix allStates) = allStates"
    by (simp add: bundlesFromMatrix_map state_bundle_for comp_def)
  moreover have "fk \<notin> field_name ` set (rows_of_state matrix st)" if "cell_at matrix fk st = None" for st
    using that by (auto simp: rows_of_state_def List.map_filter_def row_of_cell_def Let_def)
  moreover have "allStates ! i \<notin> set proto_names" if "i < length allStates"
    using that assms(2) by (simp add: plain_names_mem)
  ultimately show ?thesis
    by (simp add: bundlesFromMatrix_map bundle_for_eq [OF assms(1)])
qed

text \<open>
  C9.  The claim is that for every matrix and state list a field with no cell for a state
  contributes no row to the bundle of that state.  In
  \<open>bundlesFromMatrix({a: {}}, ['constructor'])\<close> the field \<open>a\<close> has no cell for the
  state; \<open>byState?.[state]\<close> reads the inherited function \<open>Object\<close>, which passes
  \<open>if (!cell) continue\<close>, and a row for \<open>a\<close> is pushed.
\<close>

theorem bundlesFromMatrix_inherited_state:
  "cell_at [(''a'', [])] ''a'' ''constructor'' = None
   \<and> bundlesFromMatrix [(''a'', [])] [''constructor'']
     = [\<lparr>state = ''constructor'', action = View,
         rows = [\<lparr>field_name = ''a'', action_context = View, visible = Some True,
                  row_required = Some False\<rparr>]\<rparr>]"
  by (simp add: cell_at_def bundlesFromMatrix_def bundle_for_def js_get_def proto_names_def
      row_of_builtin_def)

section \<open>Bundles to matrix\<close>

lemma cell_at_update_row:
  "cell_at (AList.update fk (AList.update st c (case map_of m fk of Some r \<Rightarrow> r | None \<Rightarrow> [])) m) f s
     = (if f = fk \<and> s = st then Some c else cell_at m f s)"
  by (auto simp: cell_at_def update_conv' split: option.splits)

lemma find_append_cases:
  "find P (xs @ ys) = (case find P xs of Some x \<Rightarrow> Some x | None \<Rightarrow> find P ys)"
  by (induction xs) auto

lemma last_row_in_Nil: "last_row_in [] f = None"
  by (simp add: last_row_in_def)

lemma last_row_in_Cons:
  "last_row_in (row # rs) f =
     (case last_row_in rs f of Some r \<Rightarrow> Some r
      | None \<Rightarrow> if field_name row = f then Some row else None)"
  by (auto simp: last_row_in_def find_append_cases split: option.splits)

lemma cell_at_mfb_rows:
  "mfb_rows st rs m = Inr m' \<Longrightarrow>
   cell_at m' f s =
     (if s = st
      then (case last_row_in rs f of Some row \<Rightarrow> Some (toRule row) | None \<Rightarrow> cell_at m f s)
      else cell_at m f s)"
proof (induction rs arbitrary: m)
  case Nil
  then show ?case by (simp add: last_row_in_Nil)
next
  case (Cons row rs)
  from Cons.prems obtain r r' where
    r: "row_or_new m (field_name row) = Inr r" and r': "js_set st (toRule row) r = Inr r'"
    and rest: "mfb_rows st rs (AList.update (field_name row) r' m) = Inr m'"
    by (auto split: sum.splits)
  let ?m1 = "AList.update (field_name row)
               (AList.update st (toRule row)
                  (case map_of m (field_name row) of Some r \<Rightarrow> r | None \<Rightarrow> [])) m"
  from row_or_new_value [OF r] js_set_Inr [OF r'] rest have rest': "mfb_rows st rs ?m1 = Inr m'"
    by simp
  have "cell_at m' f s =
          (if s = st
           then (case last_row_in rs f of Some row \<Rightarrow> Some (toRule row) | None \<Rightarrow> cell_at ?m1 f s)
           else cell_at ?m1 f s)"
    by (rule Cons.IH [OF rest'])
  moreover have "cell_at ?m1 f s =
      (if f = field_name row \<and> s = st then Some (toRule row) else cell_at m f s)"
    by (rule cell_at_update_row)
  ultimately show ?case
    by (auto simp: last_row_in_Cons split: option.splits)
qed

lemma mfb_rows_returns:
  "\<forall>row\<in>set rs. field_name row \<notin> set proto_names \<Longrightarrow> st \<noteq> ''__proto__'' \<Longrightarrow>
   \<exists>m'. mfb_rows st rs m = Inr m'"
  by (induction rs arbitrary: m) (simp_all add: row_or_new_plain js_set_plain)

lemma find_rev_tagged:
  "find (\<lambda>t. fst t = f \<and> fst (snd t) = s) (rev (map (\<lambda>row. (field_name row, st, row)) rs))
     = (if s = st then map_option (\<lambda>row. (field_name row, st, row)) (last_row_in rs f) else None)"
  unfolding last_row_in_def
  by (induction rs) (auto simp: find_append_cases split: option.splits)

lemma last_row_Nil: "last_row [] f s = None"
  by (simp add: last_row_def tagged_rows_def)

lemma last_row_Cons:
  "last_row (b # bs) f s =
     (case last_row bs f s of Some row \<Rightarrow> Some row
      | None \<Rightarrow> if s = state b then last_row_in (rows b) f else None)"
  by (simp add: last_row_def tagged_rows_def find_append_cases find_rev_tagged option.map_comp comp_def
        option.map_ident split: option.splits)

lemma cell_at_mfb_bundles:
  "mfb_bundles bs m = Inr m' \<Longrightarrow>
   cell_at m' f s =
     (case last_row bs f s of Some row \<Rightarrow> Some (toRule row) | None \<Rightarrow> cell_at m f s)"
proof (induction bs arbitrary: m)
  case Nil
  then show ?case by (simp add: last_row_Nil)
next
  case (Cons b bs)
  from Cons.prems obtain m1 where
    m1: "mfb_rows (state b) (rows b) m = Inr m1" and rest: "mfb_bundles bs m1 = Inr m'"
    by (auto split: sum.splits)
  show ?case
    by (simp add: Cons.IH [OF rest] cell_at_mfb_rows [OF m1] last_row_Cons split: option.splits)
qed

lemma mfb_bundles_returns:
  "\<forall>b\<in>set bs. state b \<noteq> ''__proto__'' \<and> (\<forall>row\<in>set (rows b). field_name row \<notin> set proto_names)
   \<Longrightarrow> \<exists>m'. mfb_bundles bs m = Inr m'"
proof (induction bs arbitrary: m)
  case Nil
  then show ?case by simp
next
  case (Cons b bs)
  then obtain m1 where "mfb_rows (state b) (rows b) m = Inr m1"
    using mfb_rows_returns [of "rows b" "state b" m] by auto
  with Cons show ?case by simp
qed

lemma toRule_invariant: "required (toRule row) \<Longrightarrow> mode (toRule row) = Editable"
  by (simp add: toRule_def Let_def split: if_splits)

text \<open>
  When no field name of a row is a property name of \<open>Object.prototype\<close> and no bundle
  has the state \<open>__proto__\<close>, the call returns a matrix whose cell for a field and a state
  is the one derived from the last row, in iteration order, with that field name in a
  bundle of that state, and a cell with \<open>required\<close> true has mode editable.
\<close>

lemma matrixFromBundles_plain_names:
  assumes "\<forall>b\<in>set bundles. state b \<noteq> ''__proto__''
             \<and> (\<forall>row\<in>set (rows b). field_name row \<notin> set proto_names)"
  shows "\<exists>m. matrixFromBundles bundles = Inr m
     \<and> (\<forall>fk st. cell_at m fk st = map_option toRule (last_row bundles fk st))
     \<and> (\<forall>fk st c. cell_at m fk st = Some c \<and> required c \<longrightarrow> mode c = Editable)"
proof -
  from mfb_bundles_returns [OF assms, of "[]"] obtain m where m: "mfb_bundles bundles [] = Inr m"
    by blast
  have c: "cell_at m fk st = map_option toRule (last_row bundles fk st)" for fk st
    by (simp add: cell_at_mfb_bundles [OF m] cell_at_Nil split: option.splits)
  have i: "mode c = Editable" if "cell_at m fk st = Some c" "required c" for fk st c
  proof -
    from that(1) obtain row where "c = toRule row" by (auto simp: c)
    with that(2) show ?thesis by (simp add: toRule_invariant)
  qed
  have "matrixFromBundles bundles = Inr m" using m by (simp add: matrixFromBundles_def)
  moreover have "\<forall>fk st. cell_at m fk st = map_option toRule (last_row bundles fk st)"
    using c by blast
  moreover have "\<forall>fk st c. cell_at m fk st = Some c \<and> required c \<longrightarrow> mode c = Editable"
    using i by blast
  ultimately show ?thesis by blast
qed


section \<open>Round trip\<close>

lemma field_name_row_of_cell: "field_name (row_of_cell fk c) = fk"
  by (simp add: row_of_cell_def Let_def)

lemma toRule_row_of_cell:
  "toRule (row_of_cell fk c) = \<lparr>mode = mode c, required = (required c \<and> mode c = Editable)\<rparr>"
  by (cases "mode c") (simp_all add: toRule_def row_of_cell_def Let_def)

lemma last_row_in_map_filter:
  "distinct ks \<Longrightarrow>
   last_row_in (List.map_filter (\<lambda>fk. map_option (row_of_cell fk) (g fk)) ks) f
     = (if f \<in> set ks then map_option (row_of_cell f) (g f) else None)"
  by (induction ks) (auto simp: last_row_in_Cons last_row_in_Nil field_name_row_of_cell split: option.splits)

lemma last_row_in_rows_of_state:
  "distinct (map fst m) \<Longrightarrow>
   last_row_in (rows_of_state m s) f = map_option (row_of_cell f) (cell_at m f s)"
  by (simp add: rows_of_state_def last_row_in_map_filter cell_at_absent_field)

lemma field_names_rows_of_state: "row \<in> set (rows_of_state m st) \<Longrightarrow> field_name row \<in> set (map fst m)"
  by (auto simp: rows_of_state_def List.map_filter_def field_name_row_of_cell intro: rev_image_eqI)

lemma last_row_bundles:
  "distinct (map fst m) \<Longrightarrow> plain_names sts \<Longrightarrow>
   last_row (map (bundle_for m) sts) f s =
     (if s \<in> set sts then map_option (row_of_cell f) (cell_at m f s) else None)"
proof (induction sts)
  case Nil
  then show ?case by (simp add: last_row_Nil)
next
  case (Cons st sts)
  then show ?case
    by (simp add: last_row_Cons bundle_for_eq last_row_in_rows_of_state plain_names_Cons
        split: option.splits)
qed

lemma round_trip_returns:
  assumes "distinct (map fst m)" and "plain_names (map fst m)" and "plain_names sts"
  shows "\<exists>m'. matrixFromBundles (bundlesFromMatrix m sts) = Inr m'"
proof -
  have "state b \<noteq> ''__proto__'' \<and> (\<forall>row\<in>set (rows b). field_name row \<notin> set proto_names)"
    if "b \<in> set (map (bundle_for m) sts)" for b
  proof -
    from that obtain st where st: "st \<in> set sts" "b = bundle_for m st" by auto
    from assms(3) st(1) have p: "st \<notin> set proto_names" by (rule plain_names_mem)
    with in_proto_names(1) have "st \<noteq> ''__proto__''" by auto
    moreover have "field_name row \<notin> set proto_names" if "row \<in> set (rows_of_state m st)" for row
      using field_names_rows_of_state [OF that] assms(2) by (simp add: plain_names_mem)
    ultimately show ?thesis
      by (simp add: st(2) bundle_for_eq [OF assms(1) p])
  qed
  then show ?thesis
    unfolding matrixFromBundles_def bundlesFromMatrix_map
    by (intro mfb_bundles_returns) blast
qed

lemma cell_at_round_trip:
  assumes "distinct (map fst m)" and "plain_names sts"
    and "matrixFromBundles (bundlesFromMatrix m sts) = Inr m'"
  shows "cell_at m' f s =
     (if s \<in> set sts
      then map_option (\<lambda>c. \<lparr>mode = mode c, required = (required c \<and> mode c = Editable)\<rparr>) (cell_at m f s)
      else None)"
proof -
  from assms(3) have "mfb_bundles (map (bundle_for m) sts) [] = Inr m'"
    by (simp add: matrixFromBundles_def bundlesFromMatrix_map)
  from cell_at_mfb_bundles [OF this] show ?thesis
    by (simp add: last_row_bundles [OF assms(1,2)] cell_at_Nil option.map_comp comp_def
        toRule_row_of_cell split: option.splits)
qed

text \<open>
  C1, as stated, fails: the claim lets only a cell \<open>{readonly, true}\<close> lose its
  \<open>required\<close> flag.  The matrix \<open>{f: {s: {mode: hidden, required: true}}}\<close> with the
  states \<open>[s]\<close> comes back as \<open>{f: {s: {mode: hidden, required: false}}}\<close>:
  \<open>bundlesFromMatrix\<close> writes \<open>required = !!cell.required && isEditable\<close>.
\<close>

theorem round_trip_counterexample:
  "''s'' \<in> set [''s'']
   \<and> cell_at [(''f'', [(''s'', \<lparr>mode = Hidden, required = True\<rparr>)])] ''f'' ''s''
       = Some \<lparr>mode = Hidden, required = True\<rparr>
   \<and> \<not> (mode \<lparr>mode = Hidden, required = True\<rparr> = Readonly \<and> required \<lparr>mode = Hidden, required = True\<rparr>)
   \<and> matrixFromBundles
        (bundlesFromMatrix [(''f'', [(''s'', \<lparr>mode = Hidden, required = True\<rparr>)])] [''s''])
       = Inr [(''f'', [(''s'', \<lparr>mode = Hidden, required = False\<rparr>)])]"
  by (simp add: cell_at_def matrixFromBundles_def bundlesFromMatrix_def bundle_for_def
      row_of_cell_def toRule_def row_or_new_def js_get_def js_set_def proto_names_def)

text \<open>
  C1, amended.  For a matrix (each field key once) and a state list, no field key and no
  state being a property name of \<open>Object.prototype\<close>: the round trip returns a matrix in
  which a pair of the input whose state is among the states has the same mode, and has
  \<open>required\<close> true exactly when it was true on an editable cell, so every cell that is
  not editable (hidden or readonly) comes back with \<open>required\<close> false.  If every cell of
  the input is editable or has \<open>required\<close> false, the result holds, at every pair, the
  cell of the input when the state is among the states and no cell otherwise.
\<close>

theorem round_trip_cells:
  assumes "distinct (map fst matrix)"
    and "plain_names (map fst matrix)" and "plain_names allStates"
  shows "\<exists>m. matrixFromBundles (bundlesFromMatrix matrix allStates) = Inr m
       \<and> (s \<in> set allStates \<and> cell_at matrix f s = Some c \<longrightarrow>
            cell_at m f s = Some \<lparr>mode = mode c, required = (required c \<and> mode c = Editable)\<rparr>)
       \<and> ((\<forall>f' s' c'. cell_at matrix f' s' = Some c' \<longrightarrow> mode c' = Editable \<or> \<not> required c') \<longrightarrow>
            cell_at m f s = (if s \<in> set allStates then cell_at matrix f s else None))"
proof -
  from round_trip_returns [OF assms] obtain m where
    m: "matrixFromBundles (bundlesFromMatrix matrix allStates) = Inr m"
    by blast
  note rt = cell_at_round_trip [OF assms(1,3) m]
  have same: "\<lparr>mode = mode c', required = (required c' \<and> mode c' = Editable)\<rparr> = c'"
    if "mode c' = Editable \<or> \<not> required c'" for c' :: FieldCell
    using that by auto
  have keep: "map_option (\<lambda>c. \<lparr>mode = mode c, required = (required c \<and> mode c = Editable)\<rparr>)
          (cell_at matrix f s) = cell_at matrix f s"
    if "\<forall>f' s' c'. cell_at matrix f' s' = Some c' \<longrightarrow> mode c' = Editable \<or> \<not> required c'"
  proof (cases "cell_at matrix f s")
    case None
    then show ?thesis by simp
  next
    case (Some c')
    with that have "mode c' = Editable \<or> \<not> required c'" by blast
    with Some show ?thesis by (simp add: same)
  qed
  have "(s \<in> set allStates \<and> cell_at matrix f s = Some c \<longrightarrow>
            cell_at m f s = Some \<lparr>mode = mode c, required = (required c \<and> mode c = Editable)\<rparr>)
       \<and> ((\<forall>f' s' c'. cell_at matrix f' s' = Some c' \<longrightarrow> mode c' = Editable \<or> \<not> required c') \<longrightarrow>
            cell_at m f s = (if s \<in> set allStates then cell_at matrix f s else None))"
    using keep by (auto simp: rt)
  with m show ?thesis by blast
qed

theorem round_trip_cells_witness:
  "distinct (map fst [(''f'', [(''s'', \<lparr>mode = Editable, required = True\<rparr>),
                               (''t'', \<lparr>mode = Readonly, required = False\<rparr>)])])
   \<and> plain_names (map fst [(''f'', [(''s'', \<lparr>mode = Editable, required = True\<rparr>),
                               (''t'', \<lparr>mode = Readonly, required = False\<rparr>)])])
   \<and> plain_names [''s'']
   \<and> ''s'' \<in> set [''s'']
   \<and> cell_at [(''f'', [(''s'', \<lparr>mode = Editable, required = True\<rparr>),
                        (''t'', \<lparr>mode = Readonly, required = False\<rparr>)])] ''f'' ''s''
       = Some \<lparr>mode = Editable, required = True\<rparr>
   \<and> \<not> (\<exists>f' s' c'. cell_at [(''f'', [(''s'', \<lparr>mode = Editable, required = True\<rparr>),
                        (''t'', \<lparr>mode = Readonly, required = False\<rparr>)])] f' s' = Some c'
          \<and> mode c' \<noteq> Editable \<and> required c')
   \<and> (\<exists>m. matrixFromBundles
        (bundlesFromMatrix [(''f'', [(''s'', \<lparr>mode = Editable, required = True\<rparr>),
                        (''t'', \<lparr>mode = Readonly, required = False\<rparr>)])] [''s'']) = Inr m
        \<and> cell_at m ''f'' ''s'' = Some \<lparr>mode = Editable, required = True\<rparr>)"
proof -
  let ?M = "[(''f'', [(''s'', \<lparr>mode = Editable, required = True\<rparr>),
                      (''t'', \<lparr>mode = Readonly, required = False\<rparr>)])]"
  have d: "distinct (map fst ?M)" by simp
  have pf: "plain_names (map fst ?M)" by (simp add: plain_names_def proto_names_def)
  have ps: "plain_names [''s'']" by (simp add: plain_names_def proto_names_def)
  have m: "''s'' \<in> set [''s'']" by simp
  have c: "cell_at ?M ''f'' ''s'' = Some \<lparr>mode = Editable, required = True\<rparr>"
    by (simp add: cell_at_def)
  have a: "\<forall>f' s' c'. cell_at ?M f' s' = Some c' \<longrightarrow> mode c' = Editable \<or> \<not> required c'"
    by (auto simp: cell_at_def split: if_splits)
  from round_trip_cells [OF d pf ps, of "''s''" "''f''" "\<lparr>mode = Editable, required = True\<rparr>"]
  obtain r where "matrixFromBundles (bundlesFromMatrix ?M [''s'']) = Inr r"
    and "''s'' \<in> set [''s''] \<and> cell_at ?M ''f'' ''s'' = Some \<lparr>mode = Editable, required = True\<rparr> \<longrightarrow>
         cell_at r ''f'' ''s'' = Some \<lparr>mode = mode \<lparr>mode = Editable, required = True\<rparr>,
            required = (required \<lparr>mode = Editable, required = True\<rparr>
                        \<and> mode \<lparr>mode = Editable, required = True\<rparr> = Editable)\<rparr>"
    by blast
  with m c have "\<exists>r. matrixFromBundles (bundlesFromMatrix ?M [''s'']) = Inr r
      \<and> cell_at r ''f'' ''s'' = Some \<lparr>mode = Editable, required = True\<rparr>"
    by auto
  moreover from a have "\<not> (\<exists>f' s' c'. cell_at ?M f' s' = Some c' \<and> mode c' \<noteq> Editable \<and> required c')"
    by blast
  ultimately show ?thesis using d pf ps m c by blast
qed


section \<open>Read-only flag\<close>

lemma editable_read:
  "(case js_get row st of Own cell \<Rightarrow> mode cell = Editable | Inherited \<Rightarrow> False | Undefined \<Rightarrow> False)
     \<longleftrightarrow> (\<exists>c. map_of row st = Some c \<and> mode c = Editable)"
  by (simp add: js_get_def split: option.splits)

lemma list_ex_rows:
  "list_ex (\<lambda>row. case js_get row st of
                    Own cell \<Rightarrow> mode cell = Editable
                  | Inherited \<Rightarrow> False
                  | Undefined \<Rightarrow> False) (map snd m)
     \<longleftrightarrow> (\<exists>(fk, byState) \<in> set m. \<exists>c. map_of byState st = Some c \<and> mode c = Editable)"
  by (induction m) (auto simp: editable_read)

text \<open>
  C4.  For a matrix (each field key once), a bundle list and a state: the flag is true
  exactly when the bundle found for the state has action \<open>view\<close>, or no cell of the matrix
  for the state is editable and the state is not \<open>entry\<close>.  A state without a bundle does
  not count as \<open>view\<close>: with no bundles and an empty matrix the flag is false for
  \<open>entry\<close> and true for \<open>approve\<close>.
\<close>

theorem readOnly_resolved:
  assumes "distinct (map fst matrix)"
  shows "(readOnly bundles matrix formState \<longleftrightarrow>
            (\<exists>b. find (\<lambda>x. state x = formState) bundles = Some b \<and> action b = View)
          \<or> ((\<forall>fk c. cell_at matrix fk formState = Some c \<longrightarrow> mode c \<noteq> Editable)
              \<and> formState \<noteq> ''entry''))
       \<and> \<not> readOnly [] [] ''entry'' \<and> readOnly [] [] ''approve''"
proof -
  have "readOnly bundles matrix formState \<longleftrightarrow>
            (\<exists>b. find (\<lambda>x. state x = formState) bundles = Some b \<and> action b = View)
          \<or> ((\<forall>fk c. cell_at matrix fk formState = Some c \<longrightarrow> mode c \<noteq> Editable)
              \<and> formState \<noteq> ''entry'')"
    unfolding readOnly_def Let_def list_ex_rows any_editable_entries [OF assms]
    by auto
  moreover have "\<not> readOnly [] [] ''entry''" "readOnly [] [] ''approve''"
    by (simp_all add: readOnly_def)
  ultimately show ?thesis by blast
qed

theorem readOnly_resolved_witness:
  "distinct (map fst [(''a'', [(''approve'', \<lparr>mode = Readonly, required = False\<rparr>)])])
   \<and> find (\<lambda>x. state x = ''approve'') [\<lparr>state = ''approve'', action = View, rows = []\<rparr>]
       = Some \<lparr>state = ''approve'', action = View, rows = []\<rparr>
   \<and> readOnly [\<lparr>state = ''approve'', action = View, rows = []\<rparr>]
        [(''a'', [(''approve'', \<lparr>mode = Readonly, required = False\<rparr>)])] ''approve''"
proof -
  have d: "distinct (map fst [(''a'', [(''approve'', \<lparr>mode = Readonly, required = False\<rparr>)])])"
    by simp
  show ?thesis
    using readOnly_resolved [OF d, of "[\<lparr>state = ''approve'', action = View, rows = []\<rparr>]" "''approve''"]
    by simp
qed

text \<open>
  In the application the bundle list is never empty: it is \<open>bundlesFromMatrix\<close> of the
  matrix over the four states, and for an empty matrix the bundle of \<open>entry\<close> has action
  \<open>view\<close>.
\<close>

lemma readOnly_App_empty_matrix: "readOnly (bundlesFromMatrix [] STATES) [] ''entry''"
  by (simp add: readOnly_def bundlesFromMatrix_def bundle_for_def STATES_def)

section \<open>Field extraction\<close>

lemma map_filter_append: "List.map_filter f (xs @ ys) = List.map_filter f xs @ List.map_filter f ys"
  by (simp add: List.map_filter_def)

lemma extractFields_acc:
  "extractFields trim cs acc = acc @ List.map_filter (field_of_node trim) (nodes_of cs)"
proof (induction trim cs acc rule: extractFields.induct)
  case (1 trim acc)
  then show ?case by simp
next
  case (2 trim k t l x d v cs rest acc)
  show ?case
  proof (cases "t = Some ''text'' \<or> t = Some ''button''")
    case True
    then show ?thesis
      using 2(1,2) by (cases cs) (simp_all add: field_of_node_def map_filter_append)
  next
    case False
    then show ?thesis
      using 2(3,4) by (cases cs; cases k) (simp_all add: field_of_node_def map_filter_append Let_def)
  qed
qed

text \<open>
  C8.  For every component list, and whatever \<open>trim\<close> returns, \<open>extractFields\<close> yields,
  in pre-order over the nodes at every depth, one field for each node with a non-empty
  key whose type is neither \<open>text\<close> nor \<open>button\<close>; the children of every node, also of a
  \<open>text\<close> or \<open>button\<close> node, are traversed.  The schema with a \<open>text\<close> node and a group
  holding the text field \<open>a\<close> yields the one field \<open>a\<close>.
\<close>

theorem extractFields_preorder:
  "extractFields trim cs [] = List.map_filter (field_of_node trim) (nodes_of cs)
   \<and> extractFields trim
        [Node None (Some ''text'') None (Some ''hi'') None None None,
         Node None (Some ''group'') None None None None
           (Some [Node (Some ''a'') (Some ''textfield'') None None None None None])] []
       = [\<lparr>meta_key = ''a'', meta_label = ''a'', meta_type = Some ''textfield''\<rparr>]"
  by (simp add: extractFields_acc field_of_node_def label_of_def)

section \<open>Schema enrichment\<close>

lemma build_rules_last:
  "build_rules rs rules fk =
     (case last_row_in rs fk of Some row \<Rightarrow> Some (toRule row) | None \<Rightarrow> rules fk)"
  by (induction rs arbitrary: rules) (auto simp: last_row_in_Cons last_row_in_Nil split: option.splits)

lemma transform_drops_key:
  assumes "rule_for rules (Some fk) = Some r" "mode r = Hidden"
  shows "Some fk \<notin> key ` set (nodes_of (transform rules ns))"
  using assms
proof (induction rules ns rule: transform.induct)
  case (1 rules)
  then show ?case by simp
next
  case (2 rules k t l x d v cs ns)
  then show ?case
    by (cases cs) (auto split: option.splits if_splits)
qed

lemma transform_prune:
  assumes "rule_for rules (Some fk) = Some r" "mode r = Hidden"
  shows "transform rules (prune fk ns) = transform rules ns"
  using assms
proof (induction fk ns rule: prune.induct)
  case (1 fk)
  then show ?case by simp
next
  case (2 fk k t l x d v cs ns)
  then show ?case
    by (cases cs) (auto split: option.splits if_splits)
qed

lemma rule_for_build_rules:
  "rule_for (build_rules rs Map.empty) (Some fk) =
     (if fk = [] then None else map_option toRule (last_row_in rs fk))"
  by (simp add: rule_for_def build_rules_last split: option.splits)

lemma nodes_of_transform:
  "nodes_of (transform rules ns) = map (out_node rules) (kept_nodes rules ns)"
proof (induction rules ns rule: transform.induct)
  case (1 rules)
  then show ?case by simp
next
  case (2 rules k t l x d v cs ns)
  then show ?case by (cases cs) (auto simp: out_node_def)
qed

text \<open>
  C2, as stated, fails for the empty field name: \<open>rule = key ? rules.get(key) : undefined\<close>
  gives a node whose key is the empty string no rule, so a hidden row for \<open>""\<close> drops
  nothing and the output still holds the node with key \<open>""\<close>.
\<close>

theorem enrich_hidden_counterexample:
  "\<lparr>field_name = '''', action_context = View, visible = Some False, row_required = Some False\<rparr>
     \<in> set (rows \<lparr>state = ''s'', action = View,
                   rows = [\<lparr>field_name = '''', action_context = View, visible = Some False,
                            row_required = Some False\<rparr>]\<rparr>)
   \<and> mode (toRule \<lparr>field_name = '''', action_context = View, visible = Some False,
                     row_required = Some False\<rparr>) = Hidden
   \<and> Some '''' \<in> key ` set (schema_nodes
         (enrichFormSchemaForState
            \<lparr>schema_type = Some ''default'',
             schema_components = Some [Node (Some '''') (Some ''textfield'') None None None None None]\<rparr>
            \<lparr>state = ''s'', action = View,
             rows = [\<lparr>field_name = '''', action_context = View, visible = Some False,
                      row_required = Some False\<rparr>]\<rparr>))"
  by (simp add: toRule_def enrichFormSchemaForState_def schema_nodes_def rule_for_def apply_flags_def)

text \<open>
  C2, amended.  For every schema and every bundle in which the last row for a non-empty
  field name has \<open>visible === false\<close> (the rule derived for the field, later rows
  replacing earlier ones): the output tree has no node with that key at any depth, and
  the output is the one obtained from the schema with those nodes and their whole
  subtrees removed beforehand, so nothing below a dropped node is emitted.
\<close>

theorem enrich_drops_hidden:
  assumes "last_row_in (rows bundle) fk = Some row" "visible row = Some False" "fk \<noteq> []"
  shows "Some fk \<notin> key ` set (schema_nodes (enrichFormSchemaForState schema bundle))
     \<and> enrichFormSchemaForState (prune_schema fk schema) bundle = enrichFormSchemaForState schema bundle"
proof -
  let ?rules = "build_rules (rows bundle) Map.empty"
  have r: "rule_for ?rules (Some fk) = Some (toRule row)"
    using assms by (simp add: rule_for_build_rules)
  have h: "mode (toRule row) = Hidden"
    using assms(2) by (simp add: toRule_def)
  have "Some fk \<notin> key ` set (schema_nodes (enrichFormSchemaForState schema bundle))"
    using transform_drops_key [OF r h]
    by (simp add: schema_nodes_def enrichFormSchemaForState_def Let_def)
  moreover have "enrichFormSchemaForState (prune_schema fk schema) bundle
      = enrichFormSchemaForState schema bundle"
    using transform_prune [OF r h]
    by (cases "schema_components schema")
       (simp_all add: enrichFormSchemaForState_def prune_schema_def Let_def)
  ultimately show ?thesis by simp
qed

theorem enrich_drops_hidden_witness:
  "last_row_in
     (rows \<lparr>state = ''s'', action = View,
            rows = [\<lparr>field_name = ''x'', action_context = View, visible = Some False,
                     row_required = Some False\<rparr>]\<rparr>) ''x''
     = Some \<lparr>field_name = ''x'', action_context = View, visible = Some False, row_required = Some False\<rparr>
   \<and> visible \<lparr>field_name = ''x'', action_context = View, visible = Some False,
               row_required = Some False\<rparr> = Some False
   \<and> ''x'' \<noteq> []
   \<and> Some ''x'' \<notin> key ` set (schema_nodes
         (enrichFormSchemaForState
            \<lparr>schema_type = Some ''default'',
             schema_components = Some
               [Node None (Some ''group'') None None None None
                  (Some [Node None (Some ''group'') None None None None
                     (Some [Node None (Some ''group'') None None None None
                        (Some [Node (Some ''x'') (Some ''textfield'') None None None None
                                 (Some [Node (Some ''y'') (Some ''textfield'') None None None None None])])])]),
                Node (Some ''z'') (Some ''textfield'') None None None None None]\<rparr>
            \<lparr>state = ''s'', action = View,
             rows = [\<lparr>field_name = ''x'', action_context = View, visible = Some False,
                      row_required = Some False\<rparr>]\<rparr>))"
proof -
  let ?row = "\<lparr>field_name = ''x'', action_context = View, visible = Some False, row_required = Some False\<rparr>"
  let ?b = "\<lparr>state = ''s'', action = View, rows = [?row]\<rparr>"
  have l: "last_row_in (rows ?b) ''x'' = Some ?row" by (simp add: last_row_in_def)
  have v: "visible ?row = Some False" by simp
  have n: "''x'' \<noteq> []" by simp
  from enrich_drops_hidden [OF l v n] l v n show ?thesis by blast
qed

text \<open>
  C3, as stated, fails for the empty key: a node whose key is the empty string is given
  no rule, so an editable rule for \<open>""\<close> in the bundle leaves the node as it is, with
  \<open>disabled\<close> unset.
\<close>

theorem enrich_flags_counterexample:
  "map_option toRule (last_row_in
      (rows \<lparr>state = ''s'', action = Update,
             rows = [\<lparr>field_name = '''', action_context = Update, visible = Some True,
                      row_required = Some True\<rparr>]\<rparr>) '''')
     = Some \<lparr>mode = Editable, required = True\<rparr>
   \<and> schema_nodes
         (enrichFormSchemaForState
            \<lparr>schema_type = Some ''default'',
             schema_components = Some [Node (Some '''') (Some ''textfield'') None None None None None]\<rparr>
            \<lparr>state = ''s'', action = Update,
             rows = [\<lparr>field_name = '''', action_context = Update, visible = Some True,
                      row_required = Some True\<rparr>]\<rparr>)
       = [Node (Some '''') (Some ''textfield'') None None None None None]
   \<and> disabled (Node (Some '''') (Some ''textfield'') None None None None None) \<noteq> Some False"
  by (simp add: toRule_def enrichFormSchemaForState_def schema_nodes_def rule_for_def apply_flags_def
      last_row_in_def)

text \<open>
  C3, amended.  The schema nodes that are not inside a dropped subtree have, in pre-order
  and one for one, the output nodes, with the same keys.  For such a schema node whose
  key is not empty and has a rule in the bundle (the rule is derived from the last row
  for the key): if the rule is editable (the row is visible and its action context is
  update or create), the output node has \<open>disabled\<close> false and a \<open>validate\<close> object, the
  one of the schema node or a new one, whose \<open>required\<close> is the row's required flag; if
  the rule is readonly (the row is visible and its action context is view), the output
  node has \<open>disabled\<close> true and, when the schema node declares a \<open>validate\<close> object, that
  object with \<open>required\<close> false, whatever the row's required flag (and none when the
  schema node declares none).
\<close>

theorem enrich_flags:
  assumes "i < length (kept_schema_nodes schema bundle)"
    and "key (kept_schema_nodes schema bundle ! i) = Some fk" and "fk \<noteq> []"
    and "last_row_in (rows bundle) fk = Some row"
  shows "length (schema_nodes (enrichFormSchemaForState schema bundle))
           = length (kept_schema_nodes schema bundle)
       \<and> key (schema_nodes (enrichFormSchemaForState schema bundle) ! i) = Some fk
       \<and> (visible row \<noteq> Some False \<and> (action_context row = Update \<or> action_context row = Create) \<longrightarrow>
            disabled (schema_nodes (enrichFormSchemaForState schema bundle) ! i) = Some False
          \<and> validate (schema_nodes (enrichFormSchemaForState schema bundle) ! i)
              = Some ((case validate (kept_schema_nodes schema bundle ! i) of
                         Some vo \<Rightarrow> vo | None \<Rightarrow> \<lparr>v_required = None\<rparr>)
                      \<lparr>v_required := Some (row_required row = Some True)\<rparr>))
       \<and> (visible row \<noteq> Some False \<and> action_context row = View \<longrightarrow>
            disabled (schema_nodes (enrichFormSchemaForState schema bundle) ! i) = Some True
          \<and> validate (schema_nodes (enrichFormSchemaForState schema bundle) ! i)
              = map_option (\<lambda>vo. vo\<lparr>v_required := Some False\<rparr>)
                  (validate (kept_schema_nodes schema bundle ! i)))"
proof -
  let ?rules = "build_rules (rows bundle) Map.empty"
  let ?n = "kept_schema_nodes schema bundle ! i"
  have out: "schema_nodes (enrichFormSchemaForState schema bundle)
      = map (out_node ?rules) (kept_schema_nodes schema bundle)"
    by (simp add: schema_nodes_def enrichFormSchemaForState_def kept_schema_nodes_def Let_def
        nodes_of_transform)
  then have n: "schema_nodes (enrichFormSchemaForState schema bundle) ! i = out_node ?rules ?n"
    using assms(1) by simp
  have r: "rule_for ?rules (Some fk) = Some (toRule row)"
    using assms(3,4) by (simp add: rule_for_build_rules)
  have e: "toRule row = \<lparr>mode = Editable, required = (row_required row = Some True)\<rparr>"
    if "visible row \<noteq> Some False" "action_context row = Update \<or> action_context row = Create"
    using that by (auto simp: toRule_def)
  have v: "toRule row = \<lparr>mode = Readonly, required = False\<rparr>"
    if "visible row \<noteq> Some False" "action_context row = View"
    using that by (simp add: toRule_def)
  have f: "out_node ?rules ?n =
      Node (Some fk) (node_type ?n) (label ?n) (text_prop ?n)
        (fst (apply_flags (Some (toRule row)) (disabled ?n, validate ?n)))
        (snd (apply_flags (Some (toRule row)) (disabled ?n, validate ?n)))
        (map_option (transform ?rules) (components ?n))"
    by (simp add: out_node_def assms(2) r)
  have "length (schema_nodes (enrichFormSchemaForState schema bundle))
      = length (kept_schema_nodes schema bundle)"
    by (simp add: out)
  moreover have "key (out_node ?rules ?n) = Some fk"
    by (simp add: f)
  moreover have "disabled (out_node ?rules ?n) = Some False
      \<and> validate (out_node ?rules ?n)
          = Some ((case validate ?n of Some vo \<Rightarrow> vo | None \<Rightarrow> \<lparr>v_required = None\<rparr>)
                  \<lparr>v_required := Some (row_required row = Some True)\<rparr>)"
    if "visible row \<noteq> Some False" "action_context row = Update \<or> action_context row = Create"
    by (simp add: f e [OF that] apply_flags_def)
  moreover have "disabled (out_node ?rules ?n) = Some True
      \<and> validate (out_node ?rules ?n)
          = map_option (\<lambda>vo. vo\<lparr>v_required := Some False\<rparr>) (validate ?n)"
    if "visible row \<noteq> Some False" "action_context row = View"
    by (simp add: f v [OF that] apply_flags_def)
  ultimately show ?thesis
    unfolding n by blast
qed

theorem enrich_flags_witness:
  "(0::nat) < length (kept_schema_nodes
       \<lparr>schema_type = Some ''default'',
        schema_components = Some [Node (Some ''y'') (Some ''textfield'') None None None None None]\<rparr>
       \<lparr>state = ''s'', action = Update,
        rows = [\<lparr>field_name = ''y'', action_context = Update, visible = Some True,
                 row_required = Some True\<rparr>]\<rparr>)
   \<and> schema_nodes (enrichFormSchemaForState
       \<lparr>schema_type = Some ''default'',
        schema_components = Some [Node (Some ''y'') (Some ''textfield'') None None None None None]\<rparr>
       \<lparr>state = ''s'', action = Update,
        rows = [\<lparr>field_name = ''y'', action_context = Update, visible = Some True,
                 row_required = Some True\<rparr>]\<rparr>) ! 0
     = Node (Some ''y'') (Some ''textfield'') None None (Some False) (Some \<lparr>v_required = Some True\<rparr>) None
   \<and> (0::nat) < length (kept_schema_nodes
       \<lparr>schema_type = Some ''default'',
        schema_components = Some [Node (Some ''y'') (Some ''textfield'') None None None
                                    (Some \<lparr>v_required = Some True\<rparr>) None]\<rparr>
       \<lparr>state = ''s'', action = View,
        rows = [\<lparr>field_name = ''y'', action_context = View, visible = Some True,
                 row_required = Some True\<rparr>]\<rparr>)
   \<and> schema_nodes (enrichFormSchemaForState
       \<lparr>schema_type = Some ''default'',
        schema_components = Some [Node (Some ''y'') (Some ''textfield'') None None None
                                    (Some \<lparr>v_required = Some True\<rparr>) None]\<rparr>
       \<lparr>state = ''s'', action = View,
        rows = [\<lparr>field_name = ''y'', action_context = View, visible = Some True,
                 row_required = Some True\<rparr>]\<rparr>) ! 0
     = Node (Some ''y'') (Some ''textfield'') None None (Some True) (Some \<lparr>v_required = Some False\<rparr>) None"
proof -
  let ?e = "\<lparr>field_name = ''y'', action_context = Update, visible = Some True, row_required = Some True\<rparr>"
  let ?v = "\<lparr>field_name = ''y'', action_context = View, visible = Some True, row_required = Some True\<rparr>"
  let ?be = "\<lparr>state = ''s'', action = Update, rows = [?e]\<rparr>"
  let ?bv = "\<lparr>state = ''s'', action = View, rows = [?v]\<rparr>"
  let ?s1 = "\<lparr>schema_type = Some ''default'',
             schema_components = Some [Node (Some ''y'') (Some ''textfield'') None None None None None]\<rparr>"
  let ?s2 = "\<lparr>schema_type = Some ''default'',
             schema_components = Some [Node (Some ''y'') (Some ''textfield'') None None None
                                         (Some \<lparr>v_required = Some True\<rparr>) None]\<rparr>"
  have k1: "kept_schema_nodes ?s1 ?be = [Node (Some ''y'') (Some ''textfield'') None None None None None]"
    by (simp add: kept_schema_nodes_def rule_for_def toRule_def)
  have k2: "kept_schema_nodes ?s2 ?bv
      = [Node (Some ''y'') (Some ''textfield'') None None None (Some \<lparr>v_required = Some True\<rparr>) None]"
    by (simp add: kept_schema_nodes_def rule_for_def toRule_def)
  have i1: "(0::nat) < length (kept_schema_nodes ?s1 ?be)" and i2: "(0::nat) < length (kept_schema_nodes ?s2 ?bv)"
    by (simp_all add: k1 k2)
  have y1: "key (kept_schema_nodes ?s1 ?be ! 0) = Some ''y''" and y2: "key (kept_schema_nodes ?s2 ?bv ! 0) = Some ''y''"
    by (simp_all add: k1 k2)
  have ne: "''y'' \<noteq> []" by simp
  have l1: "last_row_in (rows ?be) ''y'' = Some ?e" and l2: "last_row_in (rows ?bv) ''y'' = Some ?v"
    by (simp_all add: last_row_in_def)
  note t1 = enrich_flags [OF i1 y1 ne l1]
  note t2 = enrich_flags [OF i2 y2 ne l2]
  let ?o1 = "schema_nodes (enrichFormSchemaForState ?s1 ?be) ! 0"
  let ?o2 = "schema_nodes (enrichFormSchemaForState ?s2 ?bv) ! 0"
  from t1 have "key ?o1 = Some ''y''" "disabled ?o1 = Some False"
    "validate ?o1 = Some \<lparr>v_required = Some True\<rparr>"
    by (simp_all add: k1)
  moreover have "node_type ?o1 = Some ''textfield''" "label ?o1 = None" "text_prop ?o1 = None"
    "components ?o1 = None"
    by (simp_all add: enrichFormSchemaForState_def schema_nodes_def rule_for_def toRule_def)
  ultimately have o1: "?o1 = Node (Some ''y'') (Some ''textfield'') None None (Some False)
      (Some \<lparr>v_required = Some True\<rparr>) None"
    by (cases ?o1) simp
  from t2 have "key ?o2 = Some ''y''" "disabled ?o2 = Some True"
    "validate ?o2 = Some \<lparr>v_required = Some False\<rparr>"
    by (simp_all add: k2)
  moreover have "node_type ?o2 = Some ''textfield''" "label ?o2 = None" "text_prop ?o2 = None"
    "components ?o2 = None"
    by (simp_all add: enrichFormSchemaForState_def schema_nodes_def rule_for_def toRule_def)
  ultimately have o2: "?o2 = Node (Some ''y'') (Some ''textfield'') None None (Some True)
      (Some \<lparr>v_required = Some False\<rparr>) None"
    by (cases ?o2) simp
  from i1 i2 o1 o2 show ?thesis by blast
qed

end
